theory Spec2Isabelle
  imports Main "HOL-Library.AList" "HOL-Library.Char_ord" "HOL-Library.List_Lexorder"
    "HOL-Library.Sublist" "HOL-Library.Multiset"
begin

section \<open>Python values and exceptions\<close>

text \<open>
  The functions of \<^verbatim>\<open>module/github.py\<close> work on decoded JSON and build a nested
  \<^verbatim>\<open>dict\<close>. Python is dynamically typed, so the model has one type of values.
  A \<^verbatim>\<open>dict\<close> is an association list in insertion order (its keys are strings here);
  a string is a list of bytes, the UTF-8 encoding of the Python string. The code
  only splits and strips at the ASCII character \<^verbatim>\<open>/\<close> and compares strings
  lexicographically, and both agree on code points and on their UTF-8 bytes.
  JSON numbers are integers in the model; no function of the module reads one.
\<close>

datatype py_error =
  AttributeError | TypeError | KeyError | IndexError | ValueError | JSONDecodeError

datatype pyval =
  PNone
  | PBool bool
  | PInt int
  | PStr string
  | PList "pyval list"
  | PDict "(string \<times> pyval) list"

text \<open>\<^verbatim>\<open>s.split("/")\<close>: never the empty list.\<close>

fun split_on :: "char \<Rightarrow> string \<Rightarrow> string list" where
  "split_on c [] = [[]]"
| "split_on c (x # xs) =
     (if x = c then [] # split_on c xs
      else (case split_on c xs of
              [] \<Rightarrow> [[x]]
            | w # ws \<Rightarrow> (x # w) # ws))"

text \<open>\<^verbatim>\<open>s.strip("/")\<close>: drops the leading and the trailing slashes.\<close>

definition strip_char :: "char \<Rightarrow> string \<Rightarrow> string" where
  "strip_char c s = rev (dropWhile (\<lambda>x. x = c) (rev (dropWhile (\<lambda>x. x = c) s)))"

text \<open>\<^verbatim>\<open>d[k]\<close> read on a value, with a string key.\<close>

fun subscript :: "pyval \<Rightarrow> string \<Rightarrow> py_error + pyval" where
  "subscript (PDict kvs) k = (case map_of kvs k of None \<Rightarrow> Inl KeyError | Some v \<Rightarrow> Inr v)"
| "subscript _ k = Inl TypeError"

text \<open>\<^verbatim>\<open>d.setdefault(k, default)\<close> on the items of a dict: the items afterwards.\<close>

definition setdefault :: "string \<Rightarrow> pyval \<Rightarrow> (string \<times> pyval) list \<Rightarrow> (string \<times> pyval) list" where
  "setdefault k d kvs = (case map_of kvs k of None \<Rightarrow> AList.update k d kvs | Some v \<Rightarrow> kvs)"

section \<open>URL parsing\<close>

text \<open>
  \<^verbatim>\<open>urllib.parse.urlparse\<close> belongs to the standard library, not to the repository.
  It is a parameter of the model: a function from the URL to the parse result or to
  the exception it raises (it is documented to raise \<^verbatim>\<open>ValueError\<close>). Only the fields
  the module reads are kept.
\<close>

record ParseResult =
  scheme :: string
  netloc :: string
  path :: string

type_synonym urlparse_fn = "string \<Rightarrow> py_error + ParseResult"

definition parse_github_repo_url ::
  "urlparse_fn \<Rightarrow> string \<Rightarrow> py_error + (string option \<times> string option)" where
  "parse_github_repo_url urlparse url =
     (case urlparse url of
        Inl e \<Rightarrow> Inl e
      | Inr parsed \<Rightarrow>
          (let paths = split_on CHR ''/'' (strip_char CHR ''/'' (path parsed)) in
           if scheme parsed \<noteq> ''https'' then Inr (None, None)
           else if netloc parsed \<noteq> ''github.com'' then Inr (None, None)
           else if length paths < 2 then Inr (None, None)
           else
             (let owner = paths ! 0; repo = paths ! 1 in
              if owner = [] \<or> repo = [] then Inr (None, None)
              else Inr (Some owner, Some repo))))"

text \<open>Truthiness of an optional string: \<^verbatim>\<open>None\<close> and \<^verbatim>\<open>""\<close> are false.\<close>

fun truthy :: "string option \<Rightarrow> bool" where
  "truthy None = False"
| "truthy (Some s) = (s \<noteq> [])"

definition url_check :: "urlparse_fn \<Rightarrow> string \<Rightarrow> py_error + bool" where
  "url_check urlparse url =
     (case parse_github_repo_url urlparse url of
        Inl e \<Rightarrow> Inl e
      | Inr (owner, repo) \<Rightarrow> Inr (truthy owner \<and> truthy repo))"

section \<open>Building the nested dict\<close>

text \<open>
  One pass of the body of the loop of \<^verbatim>\<open>url_tree_dict\<close> on a path already split:
  \<open>insert_at ps l ty node\<close> walks the segments \<open>ps\<close> (\<^verbatim>\<open>parts[:-1]\<close>) with
  \<^verbatim>\<open>setdefault\<close>, then stores the last segment \<open>l\<close>. The Python code mutates the
  dicts through references; the model returns the node rebuilt. \<open>ty\<close> is the outcome
  of \<^verbatim>\<open>item["type"] == "tree"\<close>, which the code evaluates after the walk.
  A value that is not a dict has no \<^verbatim>\<open>setdefault\<close> (AttributeError) and no item
  assignment (TypeError).
\<close>

fun insert_at :: "string list \<Rightarrow> string \<Rightarrow> py_error + bool \<Rightarrow> pyval \<Rightarrow> py_error + pyval" where
  "insert_at [] l ty node =
     (case ty of
        Inl e \<Rightarrow> Inl e
      | Inr is_tree \<Rightarrow>
          (case node of
             PDict kvs \<Rightarrow>
               Inr (PDict (if is_tree then setdefault l (PDict []) kvs
                           else AList.update l PNone kvs))
           | _ \<Rightarrow> Inl (if is_tree then AttributeError else TypeError)))"
| "insert_at (p # ps) l ty node =
     (case node of
        PDict kvs \<Rightarrow>
          (case insert_at ps l ty (case map_of kvs p of None \<Rightarrow> PDict [] | Some c \<Rightarrow> c) of
             Inl e \<Rightarrow> Inl e
           | Inr c' \<Rightarrow> Inr (PDict (AList.update p c' kvs)))
      | _ \<Rightarrow> Inl AttributeError)"

text \<open>\<^verbatim>\<open>item["path"].split("/")\<close>.\<close>

definition item_parts :: "pyval \<Rightarrow> py_error + string list" where
  "item_parts item =
     (case subscript item ''path'' of
        Inl e \<Rightarrow> Inl e
      | Inr (PStr s) \<Rightarrow> Inr (split_on CHR ''/'' s)
      | Inr _ \<Rightarrow> Inl AttributeError)"

text \<open>\<^verbatim>\<open>item["type"] == "tree"\<close>.\<close>

definition item_is_tree :: "pyval \<Rightarrow> py_error + bool" where
  "item_is_tree item =
     (case subscript item ''type'' of
        Inl e \<Rightarrow> Inl e
      | Inr v \<Rightarrow> Inr (v = PStr ''tree''))"

definition add_item :: "pyval \<Rightarrow> pyval \<Rightarrow> py_error + pyval" where
  "add_item item tree_dict =
     (case item_parts item of
        Inl e \<Rightarrow> Inl e
      | Inr parts \<Rightarrow> insert_at (butlast parts) (last parts) (item_is_tree item) tree_dict)"

text \<open>The loop \<^verbatim>\<open>for item in file_list\<close> of \<^verbatim>\<open>url_tree_dict\<close>, from a given dict.\<close>

fun tree_dict_loop :: "pyval list \<Rightarrow> pyval \<Rightarrow> py_error + pyval" where
  "tree_dict_loop [] tree_dict = Inr tree_dict"
| "tree_dict_loop (item # file_list) tree_dict =
     (case add_item item tree_dict of
        Inl e \<Rightarrow> Inl e
      | Inr tree_dict' \<Rightarrow> tree_dict_loop file_list tree_dict')"

text \<open>A record of the remote listing, as decoded JSON.\<close>

definition tree_entry :: "string \<times> string \<Rightarrow> pyval" where
  "tree_entry e = PDict [(''path'', PStr (fst e)), (''type'', PStr (snd e))]"

section \<open>Rendering the nested dict\<close>

text \<open>The glyphs of the tree, as UTF-8 bytes: U+2514, U+251C, U+2500, U+2502.\<close>

definition glyph_corner :: string where
  "glyph_corner = [CHR 0xE2, CHR 0x94, CHR 0x94]"

definition glyph_tee :: string where
  "glyph_tee = [CHR 0xE2, CHR 0x94, CHR 0x9C]"

definition glyph_dash :: string where
  "glyph_dash = [CHR 0xE2, CHR 0x94, CHR 0x80]"

definition glyph_bar :: string where
  "glyph_bar = [CHR 0xE2, CHR 0x94, CHR 0x82]"

fun is_dict :: "pyval \<Rightarrow> bool" where
  "is_dict (PDict kvs) = True"
| "is_dict _ = False"

text \<open>The loop \<^verbatim>\<open>for is_last in depth_info[:-1]\<close>.\<close>

definition indent_of :: "bool list \<Rightarrow> string" where
  "indent_of depth_info =
     concat (map (\<lambda>is_last. if is_last then ''    '' else glyph_bar @ ''   '') (butlast depth_info))"

definition branch_of :: "bool \<Rightarrow> string" where
  "branch_of is_last =
     (if is_last then glyph_corner @ glyph_dash @ glyph_dash @ '' ''
      else glyph_tee @ glyph_dash @ glyph_dash @ '' '')"

text \<open>
  The text one iteration of the \<^verbatim>\<open>while\<close> loop appends for the popped triple:
  nothing for the root (\<^verbatim>\<open>name is None\<close>), else the line of the node.
  \<^verbatim>\<open>depth_info[-1]\<close> raises IndexError on an empty list.
\<close>

fun emit :: "pyval \<Rightarrow> string option \<Rightarrow> bool list \<Rightarrow> py_error + string" where
  "emit node None depth_info = Inr []"
| "emit node (Some name) depth_info =
     (if depth_info = [] then Inl IndexError
      else Inr (indent_of depth_info @ branch_of (last depth_info) @ name @
                (if is_dict node then ''/'' else []) @ [CHR 0x0A]))"

definition folders :: "(string \<times> pyval) list \<Rightarrow> string list" where
  "folders items = sort (map fst (filter (\<lambda>kv. is_dict (snd kv)) items))"

definition files :: "(string \<times> pyval) list \<Rightarrow> string list" where
  "files items = sort (map fst (filter (\<lambda>kv. snd kv = PNone) items))"

text \<open>
  \<^verbatim>\<open>node[key]\<close> for a key taken from the dict itself: the lookup succeeds
  (lemma \<open>child_of_key\<close> below).
\<close>

definition child :: "(string \<times> pyval) list \<Rightarrow> string \<Rightarrow> pyval" where
  "child items key = (case map_of items key of None \<Rightarrow> PNone | Some v \<Rightarrow> v)"

text \<open>
  The triples the loop pushes for a node, the first key on top: the Python loop
  appends them from the last key to the first and pops from the end of the list;
  the model keeps the top of the stack at the head.
\<close>

definition pushed :: "pyval \<Rightarrow> bool list \<Rightarrow> (pyval \<times> string option \<times> bool list) list" where
  "pushed node depth_info =
     (case node of
        PDict items \<Rightarrow>
          (let keys = folders items @ files items in
           map (\<lambda>i. (child items (keys ! i), Some (keys ! i),
                      depth_info @ [i = length keys - 1]))
             [0..<length keys])
      | _ \<Rightarrow> [])"

fun weight :: "pyval \<Rightarrow> nat" where
  "weight (PDict kvs) = Suc (length kvs * sum_list (map (\<lambda>kv. weight (snd kv)) kvs))"
| "weight _ = 1"

lemma child_of_key:
  "key \<in> set (folders items @ files items) \<Longrightarrow>
   \<exists>v. map_of items key = Some v \<and> child items key = v"
  by (auto simp: folders_def files_def child_def map_of_eq_None_iff rev_image_eqI
      split: option.splits)

lemma length_keys_le: "length (folders items @ files items) \<le> length items"
proof -
  have "length (filter (\<lambda>kv. is_dict (snd kv)) items) +
        length (filter (\<lambda>kv. snd kv = PNone) items) \<le> length items"
    by (induction items) auto
  then show ?thesis by (simp add: folders_def files_def)
qed

lemma weight_child_le:
  "map_of items key = Some v \<Longrightarrow> weight v \<le> sum_list (map (\<lambda>kv. weight (snd kv)) items)"
  by (induction items) (auto split: if_splits)

lemma sum_weight_pushed:
  "sum_list (map (\<lambda>t. weight (fst t)) (pushed node depth_info)) < weight node"
proof (cases node)
  case (PDict items)
  let ?keys = "folders items @ files items"
  let ?S = "sum_list (map (\<lambda>kv. weight (snd kv)) items)"
  have "weight (child items (?keys ! i)) \<le> ?S" if "i < length ?keys" for i
  proof -
    from that have "?keys ! i \<in> set ?keys" by (rule nth_mem)
    from child_of_key [OF this] weight_child_le show ?thesis by auto
  qed
  then have "sum_list (map (\<lambda>i. weight (child items (?keys ! i))) [0..<length ?keys])
      \<le> sum_list (map (\<lambda>i. ?S) [0..<length ?keys])"
    by (intro sum_list_mono) auto
  also have "\<dots> = length ?keys * ?S"
    by (simp add: sum_list_triv)
  also have "\<dots> \<le> length items * ?S"
    using length_keys_le [of items] by (rule mult_le_mono1)
  finally show ?thesis
    using PDict by (simp add: pushed_def Let_def comp_def)
qed (simp_all add: pushed_def)

text \<open>
  The \<^verbatim>\<open>while stack\<close> loop of \<^verbatim>\<open>url_tree_string\<close>: pop a triple, append its
  line, push its children. It ends because the weights on the stack go down.
\<close>

function tree_string_loop ::
  "(pyval \<times> string option \<times> bool list) list \<Rightarrow> string \<Rightarrow> py_error + string" where
  "tree_string_loop [] tree_string = Inr tree_string"
| "tree_string_loop ((node, name, depth_info) # stack) tree_string =
     (case emit node name depth_info of
        Inl e \<Rightarrow> Inl e
      | Inr line \<Rightarrow> tree_string_loop (pushed node depth_info @ stack) (tree_string @ line))"
  by pat_completeness auto
termination
proof (relation "measure (\<lambda>(stack, s). sum_list (map (\<lambda>t. weight (fst t)) stack))")
  show "wf (measure (\<lambda>(stack, s :: string). sum_list (map (\<lambda>t. weight (fst t)) stack)))"
    by simp
next
  fix node name depth_info stack and tree_string line :: string
  show "((pushed node depth_info @ stack, tree_string @ line),
         (node, name, depth_info) # stack, tree_string)
        \<in> measure (\<lambda>(stack, s). sum_list (map (\<lambda>t. weight (fst t)) stack))"
    using sum_weight_pushed [of node depth_info] by simp
qed

text \<open>The part of \<^verbatim>\<open>url_tree_string\<close> after the dict is there.\<close>

definition tree_string_of :: "pyval \<Rightarrow> py_error + string" where
  "tree_string_of tree_dict =
     (case tree_string_loop [(tree_dict, None, [])] [] of
        Inl e \<Rightarrow> Inl e
      | Inr tree_string \<Rightarrow> Inr (''Root'' @ [CHR 0x0A] @ tree_string))"

section \<open>Fetching from the GitHub API\<close>

text \<open>
  The world outside the module is a record: \<^verbatim>\<open>urlparse\<close>, the value of the
  environment variable \<^verbatim>\<open>GITHUB_TOKEN\<close>, \<^verbatim>\<open>requests.get\<close> as a function of the URL,
  the headers and the query parameters, and \<^verbatim>\<open>str\<close> on a value that is not a string.
  A response carries its status and the outcome of \<^verbatim>\<open>response.json()\<close>. The calls
  of one run go to different URLs, so a function of the request covers every run.
  Every fetching function returns, with its result, the endpoints it requested in order.
\<close>

record Response =
  status_code :: int
  json :: "py_error + pyval"

datatype http_outcome = RequestException | Got Response

record world =
  urlparse :: urlparse_fn
  github_token :: "string option"
  requests_get :: "string \<Rightarrow> (string \<times> string) list \<Rightarrow> (string \<times> string) list option \<Rightarrow> http_outcome"
  str_other :: "pyval \<Rightarrow> string"

definition GITHUB_API_BASE :: string where
  "GITHUB_API_BASE = ''https://api.github.com''"

definition github_api_get ::
  "world \<Rightarrow> string \<Rightarrow> (string \<times> string) list option \<Rightarrow> Response option" where
  "github_api_get w endpoint params =
     (let url = GITHUB_API_BASE @ endpoint;
          headers = [(''Accept'', ''application/vnd.github+json'')] @
            (case github_token w of
               None \<Rightarrow> []
             | Some token \<Rightarrow> if token = [] then [] else [(''Authorization'', ''Bearer '' @ token)])
      in case requests_get w url headers params of
           RequestException \<Rightarrow> None
         | Got response \<Rightarrow> if status_code response \<noteq> 200 then None else Some response)"

text \<open>\<^verbatim>\<open>str(x)\<close>.\<close>

definition py_str :: "world \<Rightarrow> pyval \<Rightarrow> string" where
  "py_str w v = (case v of PStr s \<Rightarrow> s | _ \<Rightarrow> str_other w v)"

text \<open>An optional string inside an f-string.\<close>

fun fmt :: "string option \<Rightarrow> string" where
  "fmt None = ''None''"
| "fmt (Some s) = s"

definition branch_endpoint :: "string option \<Rightarrow> string option \<Rightarrow> string \<Rightarrow> string" where
  "branch_endpoint owner repo branch =
     ''/repos/'' @ fmt owner @ ''/'' @ fmt repo @ ''/branches/'' @ branch"

definition tree_endpoint :: "string option \<Rightarrow> string option \<Rightarrow> string \<Rightarrow> string" where
  "tree_endpoint owner repo commit_sha =
     ''/repos/'' @ fmt owner @ ''/'' @ fmt repo @ ''/git/trees/'' @ commit_sha"

text \<open>\<^verbatim>\<open>str(response.json()["commit"]["sha"])\<close>.\<close>

definition response_sha :: "world \<Rightarrow> Response \<Rightarrow> py_error + string" where
  "response_sha w response =
     (case json response of
        Inl e \<Rightarrow> Inl e
      | Inr body \<Rightarrow>
          (case subscript body ''commit'' of
             Inl e \<Rightarrow> Inl e
           | Inr commit \<Rightarrow>
               (case subscript commit ''sha'' of
                  Inl e \<Rightarrow> Inl e
                | Inr sha \<Rightarrow> Inr (py_str w sha))))"

text \<open>
  The loop \<^verbatim>\<open>for branch in branches_to_try\<close> of \<^verbatim>\<open>url_tree_list\<close>: the endpoints
  requested and the value of \<^verbatim>\<open>commit_sha\<close> after the loop.
\<close>

fun find_commit_sha ::
  "world \<Rightarrow> string option \<Rightarrow> string option \<Rightarrow> string list \<Rightarrow>
   string list \<times> (py_error + string option)" where
  "find_commit_sha w owner repo [] = ([], Inr None)"
| "find_commit_sha w owner repo (branch # branches) =
     (let endpoint = branch_endpoint owner repo branch in
      case github_api_get w endpoint None of
        None \<Rightarrow>
          (case find_commit_sha w owner repo branches of
             (requested, r) \<Rightarrow> (endpoint # requested, r))
      | Some response \<Rightarrow>
          ([endpoint],
           case response_sha w response of
             Inl e \<Rightarrow> Inl e
           | Inr commit_sha \<Rightarrow> Inr (Some commit_sha)))"

text \<open>\<^verbatim>\<open>d.get(k, default)\<close> on a value.\<close>

fun dict_get :: "pyval \<Rightarrow> string \<Rightarrow> pyval \<Rightarrow> py_error + pyval" where
  "dict_get (PDict kvs) k d = (case map_of kvs k of None \<Rightarrow> Inr d | Some v \<Rightarrow> Inr v)"
| "dict_get _ k d = Inl AttributeError"

text \<open>The result is \<open>PNone\<close> for \<^verbatim>\<open>None\<close>, else the value of the field \<^verbatim>\<open>tree\<close>.\<close>

definition url_tree_list :: "world \<Rightarrow> string \<Rightarrow> string list \<times> (py_error + pyval)" where
  "url_tree_list w url =
     (case url_check (urlparse w) url of
        Inl e \<Rightarrow> ([], Inl e)
      | Inr False \<Rightarrow> ([], Inr PNone)
      | Inr True \<Rightarrow>
          (case parse_github_repo_url (urlparse w) url of
             Inl e \<Rightarrow> ([], Inl e)
           | Inr (owner, repo) \<Rightarrow>
               (case find_commit_sha w owner repo [''main'', ''master''] of
                  (requested, Inl e) \<Rightarrow> (requested, Inl e)
                | (requested, Inr commit_sha) \<Rightarrow>
                    if \<not> truthy commit_sha then (requested, Inr PNone)
                    else
                      (let endpoint = tree_endpoint owner repo (fmt commit_sha) in
                       (requested @ [endpoint],
                        case github_api_get w endpoint (Some [(''recursive'', ''1'')]) of
                          None \<Rightarrow> Inr PNone
                        | Some response \<Rightarrow>
                            (case json response of
                               Inl e \<Rightarrow> Inl e
                             | Inr body \<Rightarrow> dict_get body ''tree'' (PList [])))))))"

text \<open>
  \<^verbatim>\<open>for item in file_list\<close>: the items of a list, the keys of a dict, the characters
  of a string (each a string, on which \<^verbatim>\<open>item["path"]\<close> raises at once, so bytes
  stand for characters); any other value is not iterable.
\<close>

fun py_iter :: "pyval \<Rightarrow> py_error + pyval list" where
  "py_iter (PList xs) = Inr xs"
| "py_iter (PDict kvs) = Inr (map (\<lambda>kv. PStr (fst kv)) kvs)"
| "py_iter (PStr s) = Inr (map (\<lambda>c. PStr [c]) s)"
| "py_iter _ = Inl TypeError"

definition tree_dict_of :: "pyval \<Rightarrow> py_error + pyval" where
  "tree_dict_of file_list =
     (if file_list = PNone then Inr PNone
      else case py_iter file_list of
             Inl e \<Rightarrow> Inl e
           | Inr items \<Rightarrow> tree_dict_loop items (PDict []))"

definition url_tree_dict :: "world \<Rightarrow> string \<Rightarrow> string list \<times> (py_error + pyval)" where
  "url_tree_dict w url =
     (case url_tree_list w url of
        (requested, Inl e) \<Rightarrow> (requested, Inl e)
      | (requested, Inr file_list) \<Rightarrow> (requested, tree_dict_of file_list))"

definition url_tree_string :: "world \<Rightarrow> string \<Rightarrow> string list \<times> (py_error + string option)" where
  "url_tree_string w url =
     (case url_tree_dict w url of
        (requested, Inl e) \<Rightarrow> (requested, Inl e)
      | (requested, Inr tree_dict) \<Rightarrow>
          if tree_dict = PNone then (requested, Inr None)
          else
            (requested,
             case tree_string_of tree_dict of
               Inl e \<Rightarrow> Inl e
             | Inr s \<Rightarrow> Inr (Some s)))"

section \<open>Well-formed trees and the layout of the rendering\<close>

text \<open>
  A DirNode value: \<^verbatim>\<open>None\<close> for a file, a dict of DirNode values for a directory.
\<close>

fun dir_node :: "pyval \<Rightarrow> bool" where
  "dir_node PNone = True"
| "dir_node (PDict kvs) = (\<forall>kv \<in> set kvs. dir_node (snd kv))"
| "dir_node _ = False"

text \<open>
  The rendering as the specification words it: one column for each ancestor level
  (blank where the ancestor was the last sibling, a vertical bar where it was not),
  the connector of the node, its name, a slash after a directory.
\<close>

definition column :: "bool \<Rightarrow> string" where
  "column is_last = (if is_last then ''    '' else glyph_bar @ ''   '')"

definition connector :: "bool \<Rightarrow> string" where
  "connector is_last =
     (if is_last then glyph_corner @ glyph_dash @ glyph_dash @ '' ''
      else glyph_tee @ glyph_dash @ glyph_dash @ '' '')"

definition entry_line :: "bool list \<Rightarrow> bool \<Rightarrow> string \<Rightarrow> pyval \<Rightarrow> string" where
  "entry_line flags is_last name v =
     concat (map column flags) @ connector is_last @ name @
     (if is_dict v then ''/'' else []) @ [CHR 0x0A]"

lemma weight_child_less:
  assumes "i < length (folders kvs @ files kvs)"
  shows "weight (child kvs ((folders kvs @ files kvs) ! i)) < weight (PDict kvs)"
proof -
  let ?keys = "folders kvs @ files kvs"
  from assms have "?keys ! i \<in> set ?keys" by (rule nth_mem)
  from child_of_key [OF this] obtain v
    where v: "map_of kvs (?keys ! i) = Some v" "child kvs (?keys ! i) = v"
    by blast
  from less_le_trans [OF assms length_keys_le] obtain n where n: "length kvs = Suc n"
    by (cases kvs) simp_all
  have "weight v \<le> length kvs * weight v"
    unfolding n by simp
  also have "\<dots> \<le> length kvs * sum_list (map (\<lambda>kv. weight (snd kv)) kvs)"
    using weight_child_le [OF v(1)] by simp
  finally show ?thesis using v by simp
qed

text \<open>
  The lines below a node whose ancestors have the given flags: its children in the
  order \<open>folders @ files\<close>, each child's line followed at once by the lines below it.
\<close>

function layout :: "pyval \<Rightarrow> bool list \<Rightarrow> string" where
  "layout node flags =
     (case node of
        PDict kvs \<Rightarrow>
          (let names = folders kvs @ files kvs in
           concat (map (\<lambda>i. entry_line flags (i = length names - 1) (names ! i)
                               (child kvs (names ! i)) @
                             layout (child kvs (names ! i)) (flags @ [i = length names - 1]))
                     [0..<length names]))
      | _ \<Rightarrow> [])"
  by pat_completeness auto
termination
  by (relation "measure (\<lambda>(node, flags). weight node)")
    (auto simp: weight_child_less simp del: weight.simps)

declare layout.simps [simp del]

fun triple_text :: "pyval \<times> string option \<times> bool list \<Rightarrow> string" where
  "triple_text (node, None, depth_info) = layout node depth_info"
| "triple_text (node, Some name, depth_info) =
     entry_line (butlast depth_info) (last depth_info) name node @ layout node depth_info"

text \<open>
  What \<^verbatim>\<open>url_tree_string\<close> returns when the listing holds the given records:
  the dict is built from them and rendered.
\<close>

definition render_entries :: "(string \<times> string) list \<Rightarrow> py_error + string" where
  "render_entries es =
     (case tree_dict_of (PList (map tree_entry es)) of
        Inl e \<Rightarrow> Inl e
      | Inr tree_dict \<Rightarrow> tree_string_of tree_dict)"

section \<open>Paths of the tree\<close>

text \<open>The value a path of segments leads to, from a node down through the dicts.\<close>

fun get_path :: "pyval \<Rightarrow> string list \<Rightarrow> pyval option" where
  "get_path v [] = Some v"
| "get_path (PDict kvs) (p # ps) = (case map_of kvs p of None \<Rightarrow> None | Some c \<Rightarrow> get_path c ps)"
| "get_path _ (p # ps) = None"

text \<open>A dict stands at the path.\<close>

definition dir_at :: "pyval \<Rightarrow> string list \<Rightarrow> bool" where
  "dir_at t q = (case get_path t q of None \<Rightarrow> False | Some v \<Rightarrow> is_dict v)"

text \<open>
  What stands at a path of a tree: nothing, a file leaf (\<^verbatim>\<open>None\<close>), a directory (a dict),
  or a value of another kind.
\<close>

datatype shape = Absent | File | Directory | Other

fun shape_of :: "pyval \<Rightarrow> shape" where
  "shape_of PNone = File"
| "shape_of (PDict kvs) = Directory"
| "shape_of _ = Other"

definition shape_at :: "pyval \<Rightarrow> string list \<Rightarrow> shape" where
  "shape_at t q = (case get_path t q of None \<Rightarrow> Absent | Some v \<Rightarrow> shape_of v)"

text \<open>
  The shape the set of the records read so far gives a path, in a run that completes:
  nothing below the path of a file record; a file at the path of a file record; a
  directory at a path with a tree record, or a path that leads on to some record.
\<close>

definition blocked :: "(string list \<times> bool) set \<Rightarrow> string list \<Rightarrow> bool" where
  "blocked S q = (\<exists>q'. strict_prefix q' q \<and> (q', False) \<in> S)"

definition known_dir :: "(string list \<times> bool) set \<Rightarrow> string list \<Rightarrow> bool" where
  "known_dir S q = ((q, True) \<in> S \<or> (\<exists>p b. (p, b) \<in> S \<and> strict_prefix q p))"

definition spec_shape :: "(string list \<times> bool) set \<Rightarrow> string list \<Rightarrow> shape" where
  "spec_shape S q =
     (if blocked S q then Absent
      else if (q, False) \<in> S then File
      else if known_dir S q then Directory
      else Absent)"

text \<open>The split path of a record, and the record as the pair of its path and its kind.\<close>

definition entry_parts :: "string \<times> string \<Rightarrow> string list" where
  "entry_parts e = split_on CHR ''/'' (fst e)"

definition entry_key :: "string \<times> string \<Rightarrow> string list \<times> bool" where
  "entry_key e = (entry_parts e, snd e = ''tree'')"

section \<open>Equality of trees\<close>

text \<open>The keys of every dict of the value are distinct, as in any Python dict.\<close>

fun keys_distinct :: "pyval \<Rightarrow> bool" where
  "keys_distinct (PDict kvs) = (distinct (map fst kvs) \<and> (\<forall>kv \<in> set kvs. keys_distinct (snd kv)))"
| "keys_distinct _ = True"

lemma weight_lookup_less:
  assumes "map_of kvs k = Some v"
  shows "weight v < weight (PDict kvs)"
proof -
  from assms obtain n where n: "length kvs = Suc n"
    by (cases kvs) simp_all
  have "0 < weight v" by (cases v) simp_all
  then have "weight v \<le> length kvs * weight v"
    unfolding n by simp
  also have "\<dots> \<le> length kvs * sum_list (map (\<lambda>kv. weight (snd kv)) kvs)"
    using weight_child_le [OF assms] by simp
  finally show ?thesis by simp
qed

lemma weight_child_key_less:
  assumes "k \<in> set (map fst kvs)"
  shows "weight (child kvs k) < weight (PDict kvs)"
proof -
  from assms obtain v where v: "map_of kvs k = Some v"
    by (cases "map_of kvs k") (auto simp: map_of_eq_None_iff)
  from weight_lookup_less [OF v] v show ?thesis by (simp add: child_def)
qed

text \<open>
  \<^verbatim>\<open>==\<close> of Python on values made of dicts and \<^verbatim>\<open>None\<close>: two dicts are equal
  when they have the same keys and equal values under every key, whatever the order
  of insertion.
\<close>

function (sequential) tree_eq :: "pyval \<Rightarrow> pyval \<Rightarrow> bool" where
  "tree_eq PNone PNone = True"
| "tree_eq (PDict a) (PDict b) =
     (set (map fst a) = set (map fst b) \<and>
      (\<forall>k \<in> set (map fst a). tree_eq (child a k) (child b k)))"
| "tree_eq _ _ = False"
  by pat_completeness auto
termination
  by (relation "measure (\<lambda>(x, y). weight x)")
    (auto simp: weight_child_key_less simp del: weight.simps)

section \<open>Example inputs\<close>

text \<open>
  What \<^verbatim>\<open>urlparse\<close> returns on the URLs of the examples below. A port and user
  information stay in the network location. On a network location with an unbalanced
  bracket, as in \<^verbatim>\<open>https://[\<close>, it raises \<^verbatim>\<open>ValueError\<close> (``Invalid IPv6 URL'').
  Any other URL is outside the table and stands as a relative path.
\<close>

definition urlparse_examples :: urlparse_fn where
  "urlparse_examples url =
     (if url = ''https://github.com/acme/widgets/tree/main'' then
        Inr \<lparr>scheme = ''https'', netloc = ''github.com'', path = ''/acme/widgets/tree/main''\<rparr>
      else if url = ''https://github.com/acme/widgets'' then
        Inr \<lparr>scheme = ''https'', netloc = ''github.com'', path = ''/acme/widgets''\<rparr>
      else if url = ''https://github.com:443/acme/widgets'' then
        Inr \<lparr>scheme = ''https'', netloc = ''github.com:443'', path = ''/acme/widgets''\<rparr>
      else if url = ''https://user@github.com/acme/widgets'' then
        Inr \<lparr>scheme = ''https'', netloc = ''user@github.com'', path = ''/acme/widgets''\<rparr>
      else if url = ''https://['' then Inl ValueError
      else if url = ''https://[github.com/acme/widgets'' then Inl ValueError
      else Inr \<lparr>scheme = [], netloc = [], path = url\<rparr>)"


text \<open>The two records of the rendering example, and the dict built from them.\<close>

definition entries_example :: "(string \<times> string) list" where
  "entries_example = [(''src/a.py'', ''blob''), (''src/b/c.py'', ''blob'')]"

definition tree_example :: pyval where
  "tree_example =
     PDict [(''src'', PDict [(''a.py'', PNone), (''b'', PDict [(''c.py'', PNone)])])]"

lemma build_example: "tree_dict_of (PList (map tree_entry entries_example)) = Inr tree_example"
  by code_simp

lemma render_example:
  "tree_string_of tree_example
   = Inr (''Root'' @ [CHR 0x0A] @
          glyph_corner @ glyph_dash @ glyph_dash @ '' src/'' @ [CHR 0x0A] @
          ''    '' @ glyph_tee @ glyph_dash @ glyph_dash @ '' b/'' @ [CHR 0x0A] @
          ''    '' @ glyph_bar @ ''   '' @ glyph_corner @ glyph_dash @ glyph_dash @
            '' c.py'' @ [CHR 0x0A] @
          ''    '' @ glyph_corner @ glyph_dash @ glyph_dash @ '' a.py'' @ [CHR 0x0A])"
  by code_simp

text \<open>The dict built from the two records of the example in the other order.\<close>

definition tree_example_rev :: pyval where
  "tree_example_rev =
     PDict [(''src'', PDict [(''b'', PDict [(''c.py'', PNone)]), (''a.py'', PNone)])]"

lemma build_example_rev:
  "tree_dict_of (PList (map tree_entry (rev entries_example))) = Inr tree_example_rev"
  by code_simp

text \<open>
  A world for the repository \<^verbatim>\<open>acme/widgets\<close> whose only branch is \<^verbatim>\<open>master\<close>, and
  whose tree listing decodes to an object without the field \<^verbatim>\<open>tree\<close>; every other
  request is answered 404.
\<close>

definition world_master_only :: world where
  "world_master_only =
     \<lparr>urlparse = urlparse_examples,
      github_token = None,
      requests_get = (\<lambda>url headers params.
        if url = ''https://api.github.com/repos/acme/widgets/branches/master'' then
          Got \<lparr>status_code = 200,
               json = Inr (PDict [(''name'', PStr ''master''),
                                  (''commit'', PDict [(''sha'', PStr ''abc123'')])])\<rparr>
        else if url = ''https://api.github.com/repos/acme/widgets/git/trees/abc123'' then
          Got \<lparr>status_code = 200, json = Inr (PDict [(''sha'', PStr ''abc123'')])\<rparr>
        else Got \<lparr>status_code = 404, json = Inr (PDict [(''message'', PStr ''Not Found'')])\<rparr>),
      str_other = (\<lambda>v. [])\<rparr>"

text \<open>The same world with another decoded body of the tree listing.\<close>

definition world_tree_body :: "pyval \<Rightarrow> world" where
  "world_tree_body body =
     world_master_only
       \<lparr>requests_get := (\<lambda>url headers params.
          if url = ''https://api.github.com/repos/acme/widgets/git/trees/abc123'' then
            Got \<lparr>status_code = 200, json = Inr body\<rparr>
          else requests_get world_master_only url headers params)\<rparr>"

lemma master_only_parse:
  "parse_github_repo_url (urlparse world_master_only) ''https://github.com/acme/widgets''
     = Inr (Some ''acme'', Some ''widgets'')"
  by (simp add: world_master_only_def parse_github_repo_url_def urlparse_examples_def
      strip_char_def)

lemma master_only_main:
  "github_api_get world_master_only
     (branch_endpoint (Some ''acme'') (Some ''widgets'') ''main'') None = None"
  by (simp add: world_master_only_def github_api_get_def branch_endpoint_def GITHUB_API_BASE_def)

lemma master_only_master:
  "github_api_get world_master_only
     (branch_endpoint (Some ''acme'') (Some ''widgets'') ''master'') None
     = Some \<lparr>status_code = 200,
               json = Inr (PDict [(''name'', PStr ''master''),
                                  (''commit'', PDict [(''sha'', PStr ''abc123'')])])\<rparr>"
  by (simp add: world_master_only_def github_api_get_def branch_endpoint_def GITHUB_API_BASE_def)

lemma master_only_sha:
  "response_sha world_master_only
     \<lparr>status_code = 200,
      json = Inr (PDict [(''name'', PStr ''master''),
                         (''commit'', PDict [(''sha'', PStr ''abc123'')])])\<rparr> = Inr ''abc123''"
  by (simp add: response_sha_def py_str_def)

lemma master_only_find:
  "find_commit_sha world_master_only (Some ''acme'') (Some ''widgets'') [''main'', ''master'']
     = ([branch_endpoint (Some ''acme'') (Some ''widgets'') ''main'',
         branch_endpoint (Some ''acme'') (Some ''widgets'') ''master''], Inr (Some ''abc123''))"
  by (simp add: master_only_main master_only_master master_only_sha Let_def)

lemma master_only_tree:
  "github_api_get world_master_only
     (tree_endpoint (Some ''acme'') (Some ''widgets'') ''abc123'') (Some [(''recursive'', ''1'')])
     = Some \<lparr>status_code = 200, json = Inr (PDict [(''sha'', PStr ''abc123'')])\<rparr>"
  by (simp add: world_master_only_def github_api_get_def tree_endpoint_def GITHUB_API_BASE_def)

lemma url_check_valid:
  "parse_github_repo_url up url = Inr (Some owner, Some repo) \<Longrightarrow> url_check up url = Inr True"
  by (auto simp: url_check_def parse_github_repo_url_def Let_def split: sum.splits if_splits)

section \<open>URL validation\<close>

text \<open>
  Claim C5. \<^verbatim>\<open>parse_github_repo_url\<close> and \<^verbatim>\<open>url_check\<close> should return normally on
  every string, \<^verbatim>\<open>(None, None)\<close> and \<^verbatim>\<open>False\<close> on an invalid URL. The code calls
  \<^verbatim>\<open>urlparse\<close> outside any \<^verbatim>\<open>try\<close>: on \<^verbatim>\<open>https://[\<close>, where \<^verbatim>\<open>urlparse\<close> raises
  \<^verbatim>\<open>ValueError\<close>, both functions raise it too.
\<close>

theorem parse_unbalanced_bracket_raises:
  "parse_github_repo_url urlparse_examples ''https://['' = Inl ValueError \<and>
   url_check urlparse_examples ''https://['' = Inl ValueError"
  by (simp add: parse_github_repo_url_def url_check_def urlparse_examples_def)




text \<open>
  Where \<^verbatim>\<open>urlparse\<close> returns, \<^verbatim>\<open>parse_github_repo_url\<close> returns a pair, and the pair
  is \<^verbatim>\<open>(None, None)\<close> or two non-empty strings.
\<close>

lemma parse_returned_pair_shape:
  assumes "up url = Inr parsed"
  shows "\<exists>r. parse_github_repo_url up url = Inr r \<and>
           (r = (None, None) \<or>
            (\<exists>owner repo. r = (Some owner, Some repo) \<and> owner \<noteq> [] \<and> repo \<noteq> []))"
  using assms by (simp add: parse_github_repo_url_def Let_def)

text \<open>
  Claim C9. On every string \<^verbatim>\<open>parse_github_repo_url\<close> should return the pair
  \<^verbatim>\<open>(None, None)\<close> or a pair of two non-empty strings. On
  \<^verbatim>\<open>https://[github.com/acme/widgets\<close>, where \<^verbatim>\<open>urlparse\<close> raises \<^verbatim>\<open>ValueError\<close>,
  it returns no pair: it raises.
\<close>

theorem parse_bracket_returns_no_pair:
  "parse_github_repo_url urlparse_examples ''https://[github.com/acme/widgets''
     = Inl ValueError"
  by (simp add: parse_github_repo_url_def urlparse_examples_def)

section \<open>Branch resolution and the tree listing\<close>

text \<open>
  Claim C7. On a valid URL \<^verbatim>\<open>url_tree_list\<close> asks for the branch \<^verbatim>\<open>main\<close> first.
  If that request succeeds, its SHA is the commit and the only further request is the
  tree of that SHA (none when the SHA is the empty string); \<^verbatim>\<open>master\<close> is not
  requested. If it fails and the request for \<^verbatim>\<open>master\<close> succeeds, these two
  lookups are made, in this order, and the SHA of the second is the commit. If both
  fail, the result is \<^verbatim>\<open>None\<close> after the two lookups.
\<close>

theorem branch_resolution_order:
  assumes "parse_github_repo_url (urlparse w) url = Inr (Some owner, Some repo)"
  shows
    "(github_api_get w (branch_endpoint (Some owner) (Some repo) ''main'') None = Some r \<and>
      response_sha w r = Inr sha \<longrightarrow>
        find_commit_sha w (Some owner) (Some repo) [''main'', ''master''] =
          ([branch_endpoint (Some owner) (Some repo) ''main''], Inr (Some sha)) \<and>
        fst (url_tree_list w url) =
          branch_endpoint (Some owner) (Some repo) ''main'' #
          (if sha = [] then [] else [tree_endpoint (Some owner) (Some repo) sha])) \<and>
     (github_api_get w (branch_endpoint (Some owner) (Some repo) ''main'') None = None \<and>
      github_api_get w (branch_endpoint (Some owner) (Some repo) ''master'') None = Some r \<and>
      response_sha w r = Inr sha \<longrightarrow>
        find_commit_sha w (Some owner) (Some repo) [''main'', ''master''] =
          ([branch_endpoint (Some owner) (Some repo) ''main'',
            branch_endpoint (Some owner) (Some repo) ''master''], Inr (Some sha)) \<and>
        fst (url_tree_list w url) =
          branch_endpoint (Some owner) (Some repo) ''main'' #
          branch_endpoint (Some owner) (Some repo) ''master'' #
          (if sha = [] then [] else [tree_endpoint (Some owner) (Some repo) sha])) \<and>
     (github_api_get w (branch_endpoint (Some owner) (Some repo) ''main'') None = None \<and>
      github_api_get w (branch_endpoint (Some owner) (Some repo) ''master'') None = None \<longrightarrow>
        url_tree_list w url =
          ([branch_endpoint (Some owner) (Some repo) ''main'',
            branch_endpoint (Some owner) (Some repo) ''master''], Inr PNone))"
  using assms url_check_valid [OF assms]
  by (auto simp: url_tree_list_def Let_def split: option.splits)

theorem branch_resolution_order_witness:
  "fst (url_tree_list world_master_only ''https://github.com/acme/widgets'') =
     [''/repos/acme/widgets/branches/main'', ''/repos/acme/widgets/branches/master'',
      ''/repos/acme/widgets/git/trees/abc123'']"
  using branch_resolution_order [OF master_only_parse, of _ "''abc123''"]
    master_only_main master_only_master master_only_sha
  by (simp add: branch_endpoint_def tree_endpoint_def)

text \<open>
  Claim C8. A tree listing that decodes but has no field \<^verbatim>\<open>tree\<close> should give the
  empty list and no exception. The code calls \<^verbatim>\<open>.get\<close> on whatever was decoded:
  when the body is a JSON array or \<^verbatim>\<open>null\<close>, \<^verbatim>\<open>url_tree_list\<close> raises
  \<^verbatim>\<open>AttributeError\<close>.
\<close>

theorem tree_listing_not_object_raises:
  "snd (url_tree_list (world_tree_body (PList [])) ''https://github.com/acme/widgets'')
     = Inl AttributeError \<and>
   snd (url_tree_list (world_tree_body PNone) ''https://github.com/acme/widgets'')
     = Inl AttributeError"
  by (simp add: url_tree_list_def url_check_def parse_github_repo_url_def
      urlparse_examples_def strip_char_def world_tree_body_def world_master_only_def
      github_api_get_def GITHUB_API_BASE_def branch_endpoint_def tree_endpoint_def
      response_sha_def py_str_def Let_def)

text \<open>
  Claim C8, amended. When the tree listing is answered with a JSON object that has
  no field \<^verbatim>\<open>tree\<close>, \<^verbatim>\<open>url_tree_list\<close> returns the empty list and raises nothing;
  the dict built from it is the empty root and its rendering is the line \<^verbatim>\<open>Root\<close>
  alone.
\<close>

theorem missing_tree_field_empty:
  assumes "parse_github_repo_url (urlparse w) url = Inr (Some owner, Some repo)"
    and "find_commit_sha w (Some owner) (Some repo) [''main'', ''master'']
           = (requested, Inr (Some sha))"
    and "sha \<noteq> []"
    and "github_api_get w (tree_endpoint (Some owner) (Some repo) sha)
           (Some [(''recursive'', ''1'')]) = Some r"
    and "json r = Inr (PDict body)"
    and "map_of body ''tree'' = None"
  shows "snd (url_tree_list w url) = Inr (PList []) \<and>
         snd (url_tree_dict w url) = Inr (PDict []) \<and>
         snd (url_tree_string w url) = Inr (Some (''Root'' @ [CHR 0x0A]))"
  using assms url_check_valid [OF assms(1)]
  by (simp add: url_tree_list_def url_tree_dict_def url_tree_string_def tree_dict_of_def
      tree_string_of_def pushed_def folders_def files_def Let_def)

theorem missing_tree_field_empty_witness:
  "snd (url_tree_list world_master_only ''https://github.com/acme/widgets'') = Inr (PList []) \<and>
   snd (url_tree_dict world_master_only ''https://github.com/acme/widgets'') = Inr (PDict []) \<and>
   snd (url_tree_string world_master_only ''https://github.com/acme/widgets'')
     = Inr (Some (''Root'' @ [CHR 0x0A]))"
  by (rule missing_tree_field_empty [OF master_only_parse master_only_find _ master_only_tree,
        where body = "[(''sha'', PStr ''abc123'')]"])
    simp_all

section \<open>The rendering\<close>

lemma emit_Some:
  "depth_info \<noteq> [] \<Longrightarrow>
   emit node (Some name) depth_info
     = Inr (entry_line (butlast depth_info) (last depth_info) name node)"
  by (simp add: entry_line_def indent_of_def branch_of_def column_def [abs_def] connector_def)

lemma layout_PDict:
  "layout (PDict kvs) flags =
     concat (map (\<lambda>i. entry_line flags (i = length (folders kvs @ files kvs) - 1)
                         ((folders kvs @ files kvs) ! i)
                         (child kvs ((folders kvs @ files kvs) ! i)) @
                       layout (child kvs ((folders kvs @ files kvs) ! i))
                         (flags @ [i = length (folders kvs @ files kvs) - 1]))
               [0..<length (folders kvs @ files kvs)])"
  by (subst layout.simps) (simp add: Let_def)

lemma layout_not_dict: "\<not> is_dict node \<Longrightarrow> layout node flags = []"
  by (subst layout.simps) (cases node; simp)

lemma pushed_text: "concat (map triple_text (pushed node depth_info)) = layout node depth_info"
proof (cases node)
  case (PDict kvs)
  show ?thesis
    unfolding PDict layout_PDict by (simp add: pushed_def Let_def comp_def)
qed (simp_all add: pushed_def layout_not_dict)

lemma pushed_ok: "(c, n, d) \<in> set (pushed node depth_info) \<Longrightarrow> n \<noteq> None \<and> d \<noteq> []"
  by (cases node) (auto simp: pushed_def Let_def)

text \<open>The loop appends, for every triple on the stack from the top, its text.\<close>

lemma loop_layout:
  "\<forall>t \<in> set stack. fst (snd t) \<noteq> None \<longrightarrow> snd (snd t) \<noteq> [] \<Longrightarrow>
   tree_string_loop stack acc = Inr (acc @ concat (map triple_text stack))"
proof (induction stack acc rule: tree_string_loop.induct)
  case (1 tree_string)
  show ?case by simp
next
  case (2 node name depth_info stack tree_string)
  have ok: "\<forall>t \<in> set (pushed node depth_info @ stack).
              fst (snd t) \<noteq> None \<longrightarrow> snd (snd t) \<noteq> []"
    using "2.prems" pushed_ok [of _ _ _ node depth_info] by auto
  show ?case
  proof (cases name)
    case None
    then have e: "emit node name depth_info = Inr []" by simp
    from "2.IH" [OF e ok] e show ?thesis
      by (simp add: None pushed_text del: emit.simps)
  next
    case (Some n)
    with "2.prems" have ne: "depth_info \<noteq> []" by simp
    have e: "emit node name depth_info
               = Inr (entry_line (butlast depth_info) (last depth_info) n node)"
      unfolding Some by (rule emit_Some [OF ne])
    from "2.IH" [OF e ok] e show ?thesis
      by (simp add: Some pushed_text del: emit.simps)
  qed
qed

lemma tree_string_layout: "tree_string_of t = Inr (''Root'' @ [CHR 0x0A] @ layout t [])"
  using loop_layout [of "[(t, None, [])]" "[]"] by (simp add: tree_string_of_def)

text \<open>
  Claim C1. For the records \<^verbatim>\<open>src/a.py\<close> and \<^verbatim>\<open>src/b/c.py\<close> the claim expects
  \<^verbatim>\<open>a.py\<close> on the line after \<^verbatim>\<open>src/\<close> and \<^verbatim>\<open>b/\<close> after it. The code lists
  the folders of a dict before its files, so the rendering is not that string.
\<close>

theorem render_example_not_spec:
  "render_entries entries_example \<noteq>
     Inr (''Root'' @ [CHR 0x0A] @
          glyph_corner @ glyph_dash @ glyph_dash @ '' src/'' @ [CHR 0x0A] @
          ''    '' @ glyph_tee @ glyph_dash @ glyph_dash @ '' a.py'' @ [CHR 0x0A] @
          ''    '' @ glyph_corner @ glyph_dash @ glyph_dash @ '' b/'' @ [CHR 0x0A] @
          ''        '' @ glyph_corner @ glyph_dash @ glyph_dash @ '' c.py'' @ [CHR 0x0A])"
  by (simp add: render_entries_def build_example render_example
      glyph_corner_def glyph_dash_def glyph_tee_def glyph_bar_def)

text \<open>
  Claim C1, amended. For these records the rendering is \<^verbatim>\<open>Root\<close>, then \<^verbatim>\<open>src/\<close>,
  below it the folder \<^verbatim>\<open>b/\<close> with \<^verbatim>\<open>c.py\<close>, and last the file \<^verbatim>\<open>a.py\<close>.
\<close>

theorem render_example_folders_first:
  "render_entries entries_example =
     Inr (''Root'' @ [CHR 0x0A] @
          glyph_corner @ glyph_dash @ glyph_dash @ '' src/'' @ [CHR 0x0A] @
          ''    '' @ glyph_tee @ glyph_dash @ glyph_dash @ '' b/'' @ [CHR 0x0A] @
          ''    '' @ glyph_bar @ ''   '' @ glyph_corner @ glyph_dash @ glyph_dash @
            '' c.py'' @ [CHR 0x0A] @
          ''    '' @ glyph_corner @ glyph_dash @ glyph_dash @ '' a.py'' @ [CHR 0x0A])"
  by (simp add: render_entries_def build_example render_example)

text \<open>
  Claim C3. The string \<^verbatim>\<open>url_tree_string\<close> makes of a dict is \<^verbatim>\<open>Root\<close> and the
  layout of the dict, in which the children of every dict stand in the order
  \<open>folders @ files\<close>: first the names of the child directories in ascending order,
  then the names of the child files in ascending order.
\<close>

theorem children_order:
  "tree_string_of t = Inr (''Root'' @ [CHR 0x0A] @ layout t []) \<and>
   (\<forall>kvs. sorted (folders kvs) \<and> sorted (files kvs) \<and>
      set (folders kvs) = {k. \<exists>v. (k, v) \<in> set kvs \<and> is_dict v} \<and>
      set (files kvs) = {k. (k, PNone) \<in> set kvs})"
  by (force simp: tree_string_layout folders_def files_def)

theorem children_order_witness:
  "tree_string_of tree_example =
     Inr (''Root'' @ [CHR 0x0A] @ layout tree_example []) \<and>
   folders [(''a.py'', PNone), (''b'', PDict [(''c.py'', PNone)])] = [''b''] \<and>
   files [(''a.py'', PNone), (''b'', PDict [(''c.py'', PNone)])] = [''a.py'']"
  using children_order [of tree_example] by (simp add: folders_def files_def)

section \<open>The shape of the dict\<close>

lemma set_update_subset: "set (AList.update k v al) \<subseteq> insert (k, v) (set al)"
  by (induction al) auto

lemma dir_node_update:
  "dir_node (PDict kvs) \<Longrightarrow> dir_node v \<Longrightarrow> dir_node (PDict (AList.update k v kvs))"
  using set_update_subset [of k v kvs] by auto

lemma dir_node_lookup:
  "dir_node (PDict kvs) \<Longrightarrow> map_of kvs k = Some v \<Longrightarrow> dir_node v"
  by (force dest: map_of_SomeD)

lemma insert_at_dir_node:
  "dir_node node \<Longrightarrow> insert_at ps l ty node = Inr node' \<Longrightarrow> dir_node node' \<and> is_dict node'"
proof (induction ps arbitrary: node node')
  case Nil
  have new: "dir_node (PDict kvs) \<Longrightarrow> dir_node (PDict (AList.update l (PDict []) kvs))"
    and leaf: "dir_node (PDict kvs) \<Longrightarrow> dir_node (PDict (AList.update l PNone kvs))" for kvs
    by (rule dir_node_update; simp)+
  from Nil show ?case
    by (cases node; cases ty)
      (auto simp: setdefault_def new leaf simp del: dir_node.simps
        split: option.splits if_splits)
next
  case (Cons p ps)
  from Cons.prems obtain kvs where node: "node = PDict kvs"
    by (cases node) auto
  let ?c = "case map_of kvs p of None \<Rightarrow> PDict [] | Some c \<Rightarrow> c"
  from Cons.prems node obtain c' where c': "insert_at ps l ty ?c = Inr c'"
    and node': "node' = PDict (AList.update p c' kvs)"
    by (auto split: sum.splits)
  have "dir_node ?c"
  proof (cases "map_of kvs p")
    case None
    then show ?thesis by simp
  next
    case (Some c)
    from Cons.prems(1) have "dir_node c"
      unfolding node by (rule dir_node_lookup) (rule Some)
    with Some show ?thesis by simp
  qed
  from Cons.IH [OF this c'] have "dir_node c'" by simp
  with Cons.prems(1) node node' show ?case
    by (simp add: dir_node_update del: dir_node.simps)
qed

lemma add_item_dir_node:
  "dir_node t \<Longrightarrow> add_item item t = Inr t' \<Longrightarrow> dir_node t' \<and> is_dict t'"
  by (auto simp: add_item_def split: sum.splits dest: insert_at_dir_node)

lemma tree_dict_loop_dir_node:
  "dir_node t \<Longrightarrow> is_dict t \<Longrightarrow> tree_dict_loop items t = Inr t' \<Longrightarrow>
   dir_node t' \<and> is_dict t'"
proof (induction items arbitrary: t)
  case Nil
  then show ?case by simp
next
  case (Cons item items)
  from Cons.prems(3) obtain t1 where t1: "add_item item t = Inr t1"
    and rest: "tree_dict_loop items t1 = Inr t'"
    by (auto split: sum.splits)
  from add_item_dir_node [OF Cons.prems(1) t1] Cons.IH [OF _ _ rest] show ?case by simp
qed

text \<open>
  Claim C10. Whenever \<^verbatim>\<open>url_tree_dict\<close> completes on a list of items, the value it
  returns is a dict in which every value, at any depth, is a dict or \<^verbatim>\<open>None\<close>.
\<close>

theorem tree_dict_well_formed:
  assumes "tree_dict_of (PList items) = Inr t"
  shows "is_dict t \<and> dir_node t"
  using assms tree_dict_loop_dir_node [of "PDict []" items t]
  by (simp add: tree_dict_of_def)

theorem tree_dict_well_formed_witness:
  "tree_dict_of (PList (map tree_entry entries_example)) = Inr tree_example \<and>
   is_dict tree_example \<and> dir_node tree_example"
  using tree_dict_well_formed [OF build_example] build_example by simp

section \<open>Directories and files of the built dict\<close>

lemma get_path_empty_dict: "q \<noteq> [] \<Longrightarrow> get_path (PDict []) q = None"
  by (cases q) simp_all

lemma get_path_child:
  "q \<noteq> [] \<Longrightarrow>
   get_path (case map_of kvs p of None \<Rightarrow> PDict [] | Some c \<Rightarrow> c) q = get_path (PDict kvs) (p # q)"
  by (auto split: option.splits simp: get_path_empty_dict)

lemma get_path_update:
  "get_path (PDict (AList.update p c kvs)) (x # q) =
     (if x = p then get_path c q else get_path (PDict kvs) (x # q))"
  by (simp add: update_conv')

lemma insert_at_Cons_Inr:
  assumes "insert_at (p # ps) l ty node = Inr node'"
  obtains kvs c' where "node = PDict kvs"
    and "insert_at ps l ty (case map_of kvs p of None \<Rightarrow> PDict [] | Some c \<Rightarrow> c) = Inr c'"
    and "node' = PDict (AList.update p c' kvs)"
  using assms by (cases node) (auto split: sum.splits)

lemma insert_at_Nil_Inr:
  assumes "insert_at [] l (Inr b) node = Inr node'"
  obtains kvs where "node = PDict kvs"
    and "node' = PDict (if b then setdefault l (PDict []) kvs else AList.update l PNone kvs)"
  using assms by (cases node) auto

lemma insert_at_prefix_dir:
  "insert_at ps l (Inr b) node = Inr node' \<Longrightarrow> prefix q ps \<Longrightarrow> dir_at node' q"
proof (induction ps arbitrary: node node' q)
  case Nil
  from Nil.prems(1) obtain kvs where node: "node = PDict kvs"
    and node': "node' = PDict (if b then setdefault l (PDict []) kvs else AList.update l PNone kvs)"
    by (rule insert_at_Nil_Inr)
  from Nil.prems(2) show ?case by (simp add: node' dir_at_def)
next
  case (Cons p ps)
  from Cons.prems(1) obtain kvs c' where node: "node = PDict kvs"
    and c': "insert_at ps l (Inr b) (case map_of kvs p of None \<Rightarrow> PDict [] | Some c \<Rightarrow> c) = Inr c'"
    and node': "node' = PDict (AList.update p c' kvs)"
    by (rule insert_at_Cons_Inr)
  show ?case
  proof (cases q)
    case Nil
    then show ?thesis by (simp add: node' dir_at_def)
  next
    case (Cons x q')
    with Cons.prems(2) have "x = p" "prefix q' ps" by simp_all
    with Cons.IH [OF c'] show ?thesis
      unfolding Cons node' by (simp add: dir_at_def update_conv')
  qed
qed

lemma insert_at_target:
  "insert_at ps l (Inr b) node = Inr node' \<Longrightarrow>
   get_path node' (ps @ [l]) =
     (if b then (case get_path node (ps @ [l]) of None \<Rightarrow> Some (PDict []) | Some v \<Rightarrow> Some v)
      else Some PNone)"
proof (induction ps arbitrary: node node')
  case Nil
  from Nil.prems(1) obtain kvs where node: "node = PDict kvs"
    and node': "node' = PDict (if b then setdefault l (PDict []) kvs else AList.update l PNone kvs)"
    by (rule insert_at_Nil_Inr)
  show ?case
    by (auto simp: node node' setdefault_def update_conv' split: option.splits)
next
  case (Cons p ps)
  from Cons.prems(1) obtain kvs c' where node: "node = PDict kvs"
    and c': "insert_at ps l (Inr b) (case map_of kvs p of None \<Rightarrow> PDict [] | Some c \<Rightarrow> c) = Inr c'"
    and node': "node' = PDict (AList.update p c' kvs)"
    by (rule insert_at_Cons_Inr)
  have "get_path node' ((p # ps) @ [l]) = get_path c' (ps @ [l])"
    by (simp add: node' update_conv')
  also note Cons.IH [OF c']
  also have "get_path (case map_of kvs p of None \<Rightarrow> PDict [] | Some c \<Rightarrow> c) (ps @ [l])
      = get_path node ((p # ps) @ [l])"
    unfolding node using get_path_child [of "ps @ [l]" kvs p] by simp
  finally show ?case .
qed

lemma insert_at_below:
  "insert_at ps l (Inr b) node = Inr node' \<Longrightarrow> r \<noteq> [] \<Longrightarrow>
   get_path node' (ps @ l # r) = (if b then get_path node (ps @ l # r) else None)"
proof (induction ps arbitrary: node node')
  case Nil
  then obtain x r' where r: "r = x # r'" by (cases r) auto
  from Nil.prems(1) obtain kvs where node: "node = PDict kvs"
    and node': "node' = PDict (if b then setdefault l (PDict []) kvs else AList.update l PNone kvs)"
    by (rule insert_at_Nil_Inr)
  show ?case
    by (auto simp: node node' r setdefault_def update_conv' split: option.splits)
next
  case (Cons p ps)
  from Cons.prems(1) obtain kvs c' where node: "node = PDict kvs"
    and c': "insert_at ps l (Inr b) (case map_of kvs p of None \<Rightarrow> PDict [] | Some c \<Rightarrow> c) = Inr c'"
    and node': "node' = PDict (AList.update p c' kvs)"
    by (rule insert_at_Cons_Inr)
  have "get_path node' ((p # ps) @ l # r) = get_path c' (ps @ l # r)"
    by (simp add: node' update_conv')
  also note Cons.IH [OF c' Cons.prems(2)]
  also have "get_path (case map_of kvs p of None \<Rightarrow> PDict [] | Some c \<Rightarrow> c) (ps @ l # r)
      = get_path node ((p # ps) @ l # r)"
    unfolding node using get_path_child [of "ps @ l # r" kvs p] by simp
  finally show ?case .
qed

lemma insert_at_other:
  "insert_at ps l (Inr b) node = Inr node' \<Longrightarrow>
   \<not> prefix q (ps @ [l]) \<Longrightarrow> \<not> prefix (ps @ [l]) q \<Longrightarrow>
   get_path node' q = get_path node q"
proof (induction ps arbitrary: node node' q)
  case Nil
  from Nil.prems(2) obtain x q' where q: "q = x # q'" by (cases q) auto
  with Nil.prems(3) have "x \<noteq> l" by auto
  moreover
  from Nil.prems(1) obtain kvs where node: "node = PDict kvs"
    and node': "node' = PDict (if b then setdefault l (PDict []) kvs else AList.update l PNone kvs)"
    by (rule insert_at_Nil_Inr)
  ultimately show ?case
    by (auto simp: node node' q setdefault_def update_conv' split: option.splits)
next
  case (Cons p ps)
  from Cons.prems(1) obtain kvs c' where node: "node = PDict kvs"
    and c': "insert_at ps l (Inr b) (case map_of kvs p of None \<Rightarrow> PDict [] | Some c \<Rightarrow> c) = Inr c'"
    and node': "node' = PDict (AList.update p c' kvs)"
    by (rule insert_at_Cons_Inr)
  from Cons.prems(2) obtain x q' where q: "q = x # q'" by (cases q) auto
  show ?case
  proof (cases "x = p")
    case False
    then show ?thesis by (simp add: q node node' update_conv')
  next
    case True
    with Cons.prems(2,3) q have np: "\<not> prefix q' (ps @ [l])" "\<not> prefix (ps @ [l]) q'"
      by simp_all
    then have "q' \<noteq> []" by auto
    from Cons.IH [OF c' np] get_path_child [OF this, of kvs p] True show ?thesis
      by (simp add: q node node' update_conv')
  qed
qed

lemma insert_at_walk_ok:
  "insert_at ps l (Inr b) node = Inr node' \<Longrightarrow> prefix q ps \<Longrightarrow>
   get_path node q = None \<or> dir_at node q"
proof (induction ps arbitrary: node node' q)
  case Nil
  from Nil.prems(1) obtain kvs where node: "node = PDict kvs"
    and node': "node' = PDict (if b then setdefault l (PDict []) kvs else AList.update l PNone kvs)"
    by (rule insert_at_Nil_Inr)
  from Nil.prems(2) show ?case by (simp add: node dir_at_def)
next
  case (Cons p ps)
  from Cons.prems(1) obtain kvs c' where node: "node = PDict kvs"
    and c': "insert_at ps l (Inr b) (case map_of kvs p of None \<Rightarrow> PDict [] | Some c \<Rightarrow> c) = Inr c'"
    and node': "node' = PDict (AList.update p c' kvs)"
    by (rule insert_at_Cons_Inr)
  show ?case
  proof (cases q)
    case Nil
    then show ?thesis by (simp add: node dir_at_def)
  next
    case (Cons x q')
    with Cons.prems(2) have x: "x = p" and pre: "prefix q' ps" by simp_all
    from Cons.IH [OF c' pre] show ?thesis
      unfolding Cons x node by (auto simp: dir_at_def split: option.splits)
  qed
qed

lemma is_dict_shape: "is_dict v \<longleftrightarrow> shape_of v = Directory"
  by (cases v) simp_all

lemma shape_of_not_Absent [simp]: "shape_of v \<noteq> Absent"
  by (cases v) simp_all

lemma strict_prefix_snoc_iff: "strict_prefix q (ps @ [l]) \<longleftrightarrow> prefix q ps"
  by (auto simp: strict_prefix_def dest: prefix_length_le)

lemma shape_at_insert:
  assumes ok: "insert_at (butlast parts) (last parts) (Inr b) t = Inr t'"
    and ne: "parts \<noteq> []"
  shows "shape_at t' q =
     (if strict_prefix q parts then Directory
      else if q = parts then
        (if b then (if shape_at t q = Absent then Directory else shape_at t q) else File)
      else if strict_prefix parts q then (if b then shape_at t q else Absent)
      else shape_at t q)"
proof -
  let ?ps = "butlast parts" and ?l = "last parts"
  from ne have parts: "parts = ?ps @ [?l]" by simp
  have sp: "strict_prefix q parts \<longleftrightarrow> prefix q ?ps" for q
    by (subst parts) (rule strict_prefix_snoc_iff)
  consider (above) "strict_prefix q parts" | (at) "q = parts" | (below) "strict_prefix parts q"
    | (other) "\<not> prefix q parts" "\<not> prefix parts q"
    by (auto simp: strict_prefix_def)
  then show ?thesis
  proof cases
    case above
    with insert_at_prefix_dir [OF ok] sp have "dir_at t' q" by simp
    with above show ?thesis
      by (auto simp: dir_at_def shape_at_def is_dict_shape split: option.splits)
  next
    case at
    from insert_at_target [OF ok] parts have
      "get_path t' parts =
        (if b then (case get_path t parts of None \<Rightarrow> Some (PDict []) | Some v \<Rightarrow> Some v)
         else Some PNone)"
      by simp
    with at show ?thesis
      by (auto simp: shape_at_def split: option.splits)
  next
    case below
    then obtain r where q: "q = parts @ r" and r: "r \<noteq> []"
      by (auto simp: strict_prefix_def prefix_def)
    then obtain x r' where r': "r = x # r'" by (cases r) auto
    have q': "q = ?ps @ ?l # r" by (subst q, subst parts) simp
    from insert_at_below [OF ok r] have
      "get_path t' q = (if b then get_path t q else None)"
      unfolding q' .
    with below show ?thesis
      by (auto simp: shape_at_def strict_prefix_def)
  next
    case other
    from insert_at_other [OF ok, of q] other parts have "get_path t' q = get_path t q"
      by simp
    with other show ?thesis
      by (auto simp: shape_at_def strict_prefix_def)
  qed
qed

lemma shape_at_walk_ok:
  assumes ok: "insert_at (butlast parts) (last parts) (Inr b) t = Inr t'"
    and ne: "parts \<noteq> []" and q: "strict_prefix q parts"
  shows "shape_at t q = Absent \<or> shape_at t q = Directory"
proof -
  from ne have parts: "parts = butlast parts @ [last parts]" by simp
  from q have "prefix q (butlast parts)"
    by (subst (asm) parts) (simp only: strict_prefix_snoc_iff)
  from insert_at_walk_ok [OF ok this] show ?thesis
    by (auto simp: shape_at_def dir_at_def is_dict_shape split: option.splits)
qed

lemma no_file_above:
  assumes inv: "\<forall>q. q \<noteq> [] \<longrightarrow> shape_at t q = spec_shape S q"
    and S: "\<forall>x \<in> S. fst x \<noteq> []"
    and ok: "insert_at (butlast parts) (last parts) (Inr b) t = Inr t'"
    and ne: "parts \<noteq> []"
  shows "strict_prefix q parts \<Longrightarrow> (q, False) \<notin> S"
proof (induction "length q" arbitrary: q rule: less_induct)
  case less
  show ?case
  proof
    assume mem: "(q, False) \<in> S"
    with S have qne: "q \<noteq> []" by auto
    have "\<not> blocked S q"
    proof
      assume "blocked S q"
      then obtain q' where q': "strict_prefix q' q" "(q', False) \<in> S"
        by (auto simp: blocked_def)
      from q'(1) have "length q' < length q"
        by (auto simp: strict_prefix_def prefix_def)
      moreover from q'(1) less.prems have "strict_prefix q' parts"
        by (meson prefix_order.less_trans)
      ultimately have "(q', False) \<notin> S" by (rule less.hyps)
      with q'(2) show False by contradiction
    qed
    with mem have "spec_shape S q = File" by (simp add: spec_shape_def)
    with inv qne have "shape_at t q = File" by simp
    with shape_at_walk_ok [OF ok ne less.prems] show False by simp
  qed
qed

lemma spec_shape_insert:
  assumes inv: "\<forall>q. q \<noteq> [] \<longrightarrow> shape_at t q = spec_shape S q"
    and S: "\<forall>x \<in> S. fst x \<noteq> []"
    and ok: "insert_at (butlast parts) (last parts) (Inr b) t = Inr t'"
    and ne: "parts \<noteq> []"
    and q: "q \<noteq> []"
  shows "shape_at t' q = spec_shape (insert (parts, b) S) q"
proof -
  note above = no_file_above [OF inv S ok ne]
  have nb: "\<not> blocked S q'" if "prefix q' parts" for q'
    using that above by (auto simp: blocked_def)
  consider (above) "strict_prefix q parts" | (at) "q = parts" | (below) "strict_prefix parts q"
    | (other) "\<not> prefix q parts" "\<not> prefix parts q"
    by (auto simp: strict_prefix_def)
  then show ?thesis
  proof cases
    case above
    have "\<not> blocked (insert (parts, b) S) q"
      using nb [of q] above by (auto simp: blocked_def strict_prefix_def)
    moreover have "(q, False) \<notin> insert (parts, b) S"
      using above \<open>strict_prefix q parts \<Longrightarrow> (q, False) \<notin> S\<close> by auto
    moreover have "known_dir (insert (parts, b) S) q"
      using above by (auto simp: known_dir_def)
    ultimately show ?thesis
      using above by (simp add: shape_at_insert [OF ok ne] spec_shape_def)
  next
    case at
    have b1: "blocked (insert (parts, b) S) q \<longleftrightarrow> False"
      using nb [of parts] at by (auto simp: blocked_def)
    have b0: "\<not> blocked S q" using nb [of parts] at by simp
    have kd: "b \<Longrightarrow> known_dir (insert (parts, b) S) q"
      using at by (auto simp: known_dir_def)
    from inv q have "shape_at t q = spec_shape S q" by simp
    with at b0 b1 kd show ?thesis
      by (auto simp: shape_at_insert [OF ok ne] spec_shape_def)
  next
    case below
    have m: "(q, False) \<in> insert (parts, b) S \<longleftrightarrow> (q, False) \<in> S"
      using below by auto
    have bl: "blocked (insert (parts, b) S) q \<longleftrightarrow> \<not> b \<or> blocked S q"
      using below by (auto simp: blocked_def)
    have kd: "known_dir (insert (parts, b) S) q \<longleftrightarrow> known_dir S q"
      using below by (auto simp: known_dir_def strict_prefix_def)
    from inv q have "shape_at t q = spec_shape S q" by simp
    with below m bl kd show ?thesis
      by (auto simp: shape_at_insert [OF ok ne] spec_shape_def strict_prefix_def)
  next
    case other
    have m: "(q, False) \<in> insert (parts, b) S \<longleftrightarrow> (q, False) \<in> S"
      using other by auto
    have bl: "blocked (insert (parts, b) S) q \<longleftrightarrow> blocked S q"
      using other by (auto simp: blocked_def strict_prefix_def)
    have kd: "known_dir (insert (parts, b) S) q \<longleftrightarrow> known_dir S q"
      using other by (auto simp: known_dir_def strict_prefix_def)
    from inv q have "shape_at t q = spec_shape S q" by simp
    with other m bl kd show ?thesis
      by (auto simp: shape_at_insert [OF ok ne] spec_shape_def strict_prefix_def)
  qed
qed

lemma split_on_not_Nil [simp]: "split_on c s \<noteq> []"
  by (induction s) (auto split: list.splits)

lemma add_item_tree_entry:
  "add_item (tree_entry e) t =
     insert_at (butlast (entry_parts e)) (last (entry_parts e)) (Inr (snd e = ''tree'')) t"
  by (simp add: add_item_def tree_entry_def item_parts_def item_is_tree_def entry_parts_def)

lemma loop_shape:
  assumes "tree_dict_loop (map tree_entry es) t = Inr t'"
    and "\<forall>q. q \<noteq> [] \<longrightarrow> shape_at t q = spec_shape S q"
    and "\<forall>x \<in> S. fst x \<noteq> []"
  shows "\<forall>q. q \<noteq> [] \<longrightarrow> shape_at t' q = spec_shape (S \<union> entry_key ` set es) q"
  using assms
proof (induction es arbitrary: t S)
  case Nil
  then show ?case by simp
next
  case (Cons e es)
  from Cons.prems(1) obtain t1 where
    t1: "insert_at (butlast (entry_parts e)) (last (entry_parts e)) (Inr (snd e = ''tree'')) t = Inr t1"
    and rest: "tree_dict_loop (map tree_entry es) t1 = Inr t'"
    by (auto simp: add_item_tree_entry split: sum.splits)
  have ne: "entry_parts e \<noteq> []" by (simp add: entry_parts_def)
  have inv1: "\<forall>q. q \<noteq> [] \<longrightarrow> shape_at t1 q = spec_shape (insert (entry_key e) S) q"
    using spec_shape_insert [OF Cons.prems(2,3) t1 ne] by (simp add: entry_key_def)
  have S1: "\<forall>x \<in> insert (entry_key e) S. fst x \<noteq> []"
    using Cons.prems(3) ne by (simp add: entry_key_def)
  from Cons.IH [OF rest inv1 S1] show ?case by simp
qed

lemma shape_at_empty: "q \<noteq> [] \<Longrightarrow> shape_at (PDict []) q = Absent"
  by (simp add: shape_at_def get_path_empty_dict)

lemma built_shape:
  assumes "tree_dict_of (PList (map tree_entry es)) = Inr t" and "q \<noteq> []"
  shows "shape_at t q = spec_shape (entry_key ` set es) q"
proof -
  from assms(1) have "tree_dict_loop (map tree_entry es) (PDict []) = Inr t"
    by (simp add: tree_dict_of_def)
  from loop_shape [OF this, of "{}"] assms(2) show ?thesis
    by (simp add: shape_at_empty spec_shape_def blocked_def known_dir_def)
qed

text \<open>
  Claim C2. A path known to be a directory should be a dict in the result wherever
  a file record for the same path stands in the listing. The code stores
  \<^verbatim>\<open>None\<close> for a file record without looking at what is there: a tree record
  \<^verbatim>\<open>a\<close> followed by a file record \<^verbatim>\<open>a\<close>, and a record \<^verbatim>\<open>a/b\<close> followed by a
  file record \<^verbatim>\<open>a\<close>, both end with \<^verbatim>\<open>a\<close> as a file leaf.
\<close>

theorem directory_downgraded:
  "tree_dict_of (PList (map tree_entry [(''a'', ''tree''), (''a'', ''blob'')]))
     = Inr (PDict [(''a'', PNone)]) \<and>
   tree_dict_of (PList (map tree_entry [(''a/b'', ''blob''), (''a'', ''blob'')]))
     = Inr (PDict [(''a'', PNone)])"
  by code_simp

text \<open>
  Claim C2, amended. In every dict \<^verbatim>\<open>url_tree_dict\<close> returns, a path that is known to
  be a directory (by a tree record for it, or as a leading part of the path of some
  record) is a dict, provided no file record has that path or a leading part of it
  as its own path.
\<close>

theorem directory_kept:
  assumes "tree_dict_of (PList (map tree_entry es)) = Inr t"
    and "(\<exists>e \<in> set es. snd e = ''tree'' \<and> entry_parts e = q) \<or>
         (\<exists>e \<in> set es. strict_prefix q (entry_parts e))"
    and "\<forall>e \<in> set es. snd e \<noteq> ''tree'' \<longrightarrow> \<not> prefix (entry_parts e) q"
  shows "shape_at t q = Directory"
proof (cases "q = []")
  case True
  from assms(1) have "is_dict t"
    using tree_dict_loop_dir_node [of "PDict []" "map tree_entry es" t]
    by (simp add: tree_dict_of_def)
  with True show ?thesis by (simp add: shape_at_def is_dict_shape)
next
  case False
  let ?S = "entry_key ` set es"
  have "\<not> blocked ?S q"
    using assms(3) by (auto simp: blocked_def entry_key_def strict_prefix_def)
  moreover have "(q, False) \<notin> ?S"
    using assms(3) by (auto simp: entry_key_def)
  moreover have "known_dir ?S q"
    using assms(2)
  proof
    assume "\<exists>e \<in> set es. snd e = ''tree'' \<and> entry_parts e = q"
    then obtain e where "e \<in> set es" "entry_key e = (q, True)"
      by (auto simp: entry_key_def)
    then have "(q, True) \<in> ?S" by (metis imageI)
    then show ?thesis by (simp add: known_dir_def)
  next
    assume "\<exists>e \<in> set es. strict_prefix q (entry_parts e)"
    then obtain e where e: "e \<in> set es" "strict_prefix q (entry_parts e)"
      by blast
    from e(1) have "(entry_parts e, snd e = ''tree'') \<in> ?S"
      unfolding entry_key_def [symmetric] by (rule imageI)
    with e(2) show ?thesis unfolding known_dir_def by blast
  qed
  ultimately show ?thesis
    using built_shape [OF assms(1) False] by (simp add: spec_shape_def)
qed

theorem directory_kept_witness:
  "shape_at tree_example [''src'', ''b''] = Directory"
  by (rule directory_kept [OF build_example])
    (simp_all add: entries_example_def entry_parts_def)

section \<open>Independence of the order of the listing\<close>

lemma keys_distinct_update:
  assumes "keys_distinct (PDict kvs)" and "keys_distinct v"
  shows "keys_distinct (PDict (AList.update k v kvs))"
proof -
  from assms(1) have "distinct (map fst (AList.update k v kvs))"
    by (simp add: distinct_update)
  moreover have "\<forall>kv \<in> set (AList.update k v kvs). keys_distinct (snd kv)"
    using set_update_subset [of k v kvs] assms by auto
  ultimately show ?thesis by simp
qed

lemma keys_distinct_lookup:
  "keys_distinct (PDict kvs) \<Longrightarrow> map_of kvs k = Some v \<Longrightarrow> keys_distinct v"
  by (force dest: map_of_SomeD)

lemma insert_at_keys_distinct:
  "keys_distinct node \<Longrightarrow> insert_at ps l ty node = Inr node' \<Longrightarrow> keys_distinct node'"
proof (induction ps arbitrary: node node')
  case Nil
  have new: "keys_distinct (PDict kvs) \<Longrightarrow> keys_distinct (PDict (AList.update l (PDict []) kvs))"
    and leaf: "keys_distinct (PDict kvs) \<Longrightarrow> keys_distinct (PDict (AList.update l PNone kvs))" for kvs
    by (rule keys_distinct_update; simp)+
  from Nil show ?case
    by (cases node; cases ty)
      (auto simp: setdefault_def new leaf simp del: keys_distinct.simps
        split: option.splits if_splits)
next
  case (Cons p ps)
  from Cons.prems(2) obtain kvs c' where node: "node = PDict kvs"
    and c': "insert_at ps l ty (case map_of kvs p of None \<Rightarrow> PDict [] | Some c \<Rightarrow> c) = Inr c'"
    and node': "node' = PDict (AList.update p c' kvs)"
    by (rule insert_at_Cons_Inr)
  have "keys_distinct (case map_of kvs p of None \<Rightarrow> PDict [] | Some c \<Rightarrow> c)"
  proof (cases "map_of kvs p")
    case None
    then show ?thesis by simp
  next
    case (Some c)
    from Cons.prems(1) have "keys_distinct c"
      unfolding node by (rule keys_distinct_lookup) (rule Some)
    with Some show ?thesis by simp
  qed
  from Cons.IH [OF this c'] Cons.prems(1) show ?case
    unfolding node node' by (rule keys_distinct_update [rotated])
qed

lemma tree_dict_loop_keys_distinct:
  "keys_distinct t \<Longrightarrow> tree_dict_loop items t = Inr t' \<Longrightarrow> keys_distinct t'"
proof (induction items arbitrary: t)
  case Nil
  then show ?case by simp
next
  case (Cons item items)
  from Cons.prems(2) obtain t1 where t1: "add_item item t = Inr t1"
    and rest: "tree_dict_loop items t1 = Inr t'"
    by (auto split: sum.splits)
  from t1 Cons.prems(1) have "keys_distinct t1"
    by (auto simp: add_item_def split: sum.splits dest: insert_at_keys_distinct)
  from Cons.IH [OF this rest] show ?case .
qed

lemma shape_at_Nil: "shape_at t [] = shape_of t"
  by (simp add: shape_at_def)

lemma shape_at_Cons:
  "shape_at (PDict kvs) (k # q) = (case map_of kvs k of None \<Rightarrow> Absent | Some v \<Rightarrow> shape_at v q)"
  by (simp add: shape_at_def split: option.splits)

lemma same_shape_tree_eq:
  "dir_node t1 \<Longrightarrow> dir_node t2 \<Longrightarrow> (\<And>q. shape_at t1 q = shape_at t2 q) \<Longrightarrow> tree_eq t1 t2"
proof (induction "weight t1" arbitrary: t1 t2 rule: less_induct)
  case less
  from less.prems(3) [of "[]"] have top: "shape_of t1 = shape_of t2"
    by (simp add: shape_at_Nil)
  show ?case
  proof (cases t1)
    case PNone
    with top have "t2 = PNone" by (cases t2) simp_all
    with PNone show ?thesis by simp
  next
    case (PDict a)
    with top obtain b where t2: "t2 = PDict b" by (cases t2) simp_all
    have look: "(case map_of a k of None \<Rightarrow> Absent | Some v \<Rightarrow> shape_at v q) =
                (case map_of b k of None \<Rightarrow> Absent | Some v \<Rightarrow> shape_at v q)" for k q
      using less.prems(3) [of "k # q"] unfolding PDict t2 shape_at_Cons .
    have none: "map_of a k = None \<longleftrightarrow> map_of b k = None" for k
      using look [where k = k and q = "[]"]
      by (auto simp: shape_at_Nil shape_of_not_Absent [THEN not_sym] split: option.splits)
    have "k \<in> fst ` set a \<longleftrightarrow> k \<in> fst ` set b" for k
      using none [of k] unfolding map_of_eq_None_iff by blast
    then have keys: "set (map fst a) = set (map fst b)"
      unfolding set_map by blast
    have "tree_eq (child a k) (child b k)" if "k \<in> set (map fst a)" for k
    proof -
      from that obtain v1 where v1: "map_of a k = Some v1"
        by (cases "map_of a k") (auto simp: map_of_eq_None_iff)
      with none [of k] obtain v2 where v2: "map_of b k = Some v2"
        by (cases "map_of b k") auto
      have "weight v1 < weight t1"
        unfolding PDict by (rule weight_lookup_less) (rule v1)
      moreover from less.prems(1) have "dir_node v1"
        unfolding PDict by (rule dir_node_lookup) (rule v1)
      moreover from less.prems(2) have "dir_node v2"
        unfolding t2 by (rule dir_node_lookup) (rule v2)
      moreover have "shape_at v1 q = shape_at v2 q" for q
        using look [where k = k and q = q] v1 v2 by simp
      ultimately have "tree_eq v1 v2" by (rule less.hyps)
      with v1 v2 show ?thesis by (simp add: child_def)
    qed
    with keys show ?thesis by (simp add: PDict t2)
  qed (use less.prems(1) in simp_all)
qed

lemma tree_eq_same_kind:
  "tree_eq x y \<Longrightarrow> is_dict x = is_dict y \<and> (x = PNone) = (y = PNone)"
  by (cases x; cases y) simp_all

lemma child_in_set:
  "distinct (map fst kvs) \<Longrightarrow> (k, v) \<in> set kvs \<longleftrightarrow> k \<in> set (map fst kvs) \<and> child kvs k = v"
proof -
  assume "distinct (map fst kvs)"
  then have "(k, v) \<in> set kvs \<longleftrightarrow> map_of kvs k = Some v" by simp
  also have "\<dots> \<longleftrightarrow> k \<in> set (map fst kvs) \<and> child kvs k = v"
    by (cases "map_of kvs k")
      (auto simp: child_def map_of_eq_None_iff dest: map_of_SomeD intro: rev_image_eqI)
  finally show ?thesis .
qed

lemma filtered_keys:
  assumes "distinct (map fst kvs)"
  shows "set (map fst (filter (\<lambda>kv. P (snd kv)) kvs)) = {k \<in> set (map fst kvs). P (child kvs k)}"
proof -
  have "set (map fst (filter (\<lambda>kv. P (snd kv)) kvs)) = {k. \<exists>v. (k, v) \<in> set kvs \<and> P v}"
    by force
  also have "\<dots> = {k \<in> set (map fst kvs). P (child kvs k)}"
    unfolding child_in_set [OF assms] by blast
  finally show ?thesis .
qed

lemma sorted_keys_cong:
  assumes da: "distinct (map fst a)" and db: "distinct (map fst b)"
    and keys: "set (map fst a) = set (map fst b)"
    and same: "\<And>k. k \<in> set (map fst a) \<Longrightarrow> P (child a k) = P (child b k)"
  shows "sort (map fst (filter (\<lambda>kv. P (snd kv)) a)) = sort (map fst (filter (\<lambda>kv. P (snd kv)) b))"
proof (rule sorted_distinct_set_unique)
  show "distinct (sort (map fst (filter (\<lambda>kv. P (snd kv)) a)))"
    using da by (simp add: distinct_map_filter)
  show "distinct (sort (map fst (filter (\<lambda>kv. P (snd kv)) b)))"
    using db by (simp add: distinct_map_filter)
  show "set (sort (map fst (filter (\<lambda>kv. P (snd kv)) a)))
      = set (sort (map fst (filter (\<lambda>kv. P (snd kv)) b)))"
    unfolding set_sort filtered_keys [OF da] filtered_keys [OF db] using keys same by auto
qed simp_all

lemma keys_subset: "set (folders kvs @ files kvs) \<subseteq> set (map fst kvs)"
  by (auto simp: folders_def files_def)

lemma keys_distinct_child:
  "keys_distinct (PDict kvs) \<Longrightarrow> k \<in> set (map fst kvs) \<Longrightarrow> keys_distinct (child kvs k)"
  by (auto simp: child_def map_of_eq_None_iff split: option.splits dest!: map_of_SomeD)

lemma tree_eq_layout:
  "tree_eq t1 t2 \<Longrightarrow> keys_distinct t1 \<Longrightarrow> keys_distinct t2 \<Longrightarrow> layout t1 flags = layout t2 flags"
proof (induction "weight t1" arbitrary: t1 t2 flags rule: less_induct)
  case less
  show ?case
  proof (cases t1)
    case (PDict a)
    with less.prems(1) obtain b where t2: "t2 = PDict b" by (cases t2) simp_all
    from less.prems(1) have
      "set (map fst a) = set (map fst b) \<and>
       (\<forall>k \<in> set (map fst a). tree_eq (child a k) (child b k))"
      unfolding PDict t2 tree_eq.simps .
    then have keys: "set (map fst a) = set (map fst b)"
      and eq: "\<And>k. k \<in> set (map fst a) \<Longrightarrow> tree_eq (child a k) (child b k)"
      by blast+
    from less.prems(2,3) have da: "distinct (map fst a)" and db: "distinct (map fst b)"
      unfolding PDict t2 by simp_all
    have fo: "folders a = folders b"
      unfolding folders_def using eq by (intro sorted_keys_cong da db keys) (simp add: tree_eq_same_kind)
    have fi: "files a = files b"
      unfolding files_def using eq
      by (intro sorted_keys_cong [where P = "\<lambda>v. v = PNone"] da db keys) (simp add: tree_eq_same_kind)
    let ?names = "folders b @ files b"
    have step: "entry_line flags last k (child a k) @ layout (child a k) fl
              = entry_line flags last k (child b k) @ layout (child b k) fl"
      if "k \<in> set ?names" for k last fl
    proof -
      from that keys_subset [of b] keys have ka: "k \<in> set (map fst a)" and kb: "k \<in> set (map fst b)"
        by auto
      have "weight (child a k) < weight t1"
        unfolding PDict by (rule weight_child_key_less) (rule ka)
      moreover note eq [OF ka]
      moreover from less.prems(2) ka have "keys_distinct (child a k)"
        unfolding PDict by (rule keys_distinct_child)
      moreover from less.prems(3) kb have "keys_distinct (child b k)"
        unfolding t2 by (rule keys_distinct_child)
      ultimately have "layout (child a k) fl = layout (child b k) fl"
        by (rule less.hyps)
      with eq [OF ka] show ?thesis
        by (simp add: entry_line_def tree_eq_same_kind)
    qed
    show ?thesis
      unfolding PDict t2 layout_PDict fo fi
    proof (rule arg_cong [where f = concat], rule map_cong [OF refl])
      fix i
      assume "i \<in> set [0..<length ?names]"
      then have "i < length ?names" by (simp del: length_append)
      then have "?names ! i \<in> set ?names" by (rule nth_mem)
      then show "entry_line flags (i = length ?names - 1) (?names ! i) (child a (?names ! i)) @
                 layout (child a (?names ! i)) (flags @ [i = length ?names - 1])
               = entry_line flags (i = length ?names - 1) (?names ! i) (child b (?names ! i)) @
                 layout (child b (?names ! i)) (flags @ [i = length ?names - 1])"
        by (rule step)
    qed
  next
    case PNone
    with less.prems(1) have "t2 = PNone" by (cases t2) simp_all
    with PNone show ?thesis by simp
  qed (use less.prems(1) in simp_all)
qed

text \<open>
  Claim C4. Two listings that are permutations of each other should give equal
  dicts and the same rendering. A file record \<^verbatim>\<open>a\<close> followed by a record
  \<^verbatim>\<open>a/b\<close> makes \<^verbatim>\<open>url_tree_dict\<close> raise \<^verbatim>\<open>TypeError\<close> (the walk reaches
  \<^verbatim>\<open>None\<close> and assigns an item to it); in the other order it returns a dict.
\<close>

theorem permutation_changes_outcome:
  "mset [(''a'', ''blob''), (''a/b'', ''blob'')] = mset [(''a/b'', ''blob''), (''a'', ''blob'')] \<and>
   tree_dict_of (PList (map tree_entry [(''a'', ''blob''), (''a/b'', ''blob'')])) = Inl TypeError \<and>
   tree_dict_of (PList (map tree_entry [(''a/b'', ''blob''), (''a'', ''blob'')]))
     = Inr (PDict [(''a'', PNone)])"
proof -
  have "tree_dict_of (PList (map tree_entry [(''a'', ''blob''), (''a/b'', ''blob'')])) = Inl TypeError"
    by code_simp
  moreover have "tree_dict_of (PList (map tree_entry [(''a/b'', ''blob''), (''a'', ''blob'')]))
     = Inr (PDict [(''a'', PNone)])"
    by code_simp
  ultimately show ?thesis by (simp add: add.commute)
qed

text \<open>
  Claim C4, amended. For two listings that are permutations of each other and on
  both of which \<^verbatim>\<open>url_tree_dict\<close> completes, the two dicts are equal and their
  renderings are the same string.
\<close>

theorem permutation_invariance:
  assumes "mset es1 = mset es2"
    and "tree_dict_of (PList (map tree_entry es1)) = Inr t1"
    and "tree_dict_of (PList (map tree_entry es2)) = Inr t2"
  shows "tree_eq t1 t2 \<and> tree_string_of t1 = tree_string_of t2"
proof -
  from assms(1) have sets: "set es1 = set es2" by (rule mset_eq_setD)
  from assms(2,3) have loop1: "tree_dict_loop (map tree_entry es1) (PDict []) = Inr t1"
    and loop2: "tree_dict_loop (map tree_entry es2) (PDict []) = Inr t2"
    by (simp_all add: tree_dict_of_def)
  from tree_dict_loop_dir_node [OF _ _ loop1] tree_dict_loop_dir_node [OF _ _ loop2]
  have wf: "dir_node t1" "is_dict t1" "dir_node t2" "is_dict t2" by simp_all
  from tree_dict_loop_keys_distinct [OF _ loop1] tree_dict_loop_keys_distinct [OF _ loop2]
  have kd: "keys_distinct t1" "keys_distinct t2" by simp_all
  have "shape_at t1 q = shape_at t2 q" for q
  proof (cases "q = []")
    case True
    with wf show ?thesis by (simp add: shape_at_Nil is_dict_shape)
  next
    case False
    from built_shape [OF assms(2) False] built_shape [OF assms(3) False] sets
    show ?thesis by simp
  qed
  with wf have eq: "tree_eq t1 t2" by (intro same_shape_tree_eq)
  from tree_eq_layout [OF eq kd] have "layout t1 [] = layout t2 []" .
  with eq show ?thesis by (simp add: tree_string_layout)
qed

theorem permutation_invariance_witness:
  "tree_eq tree_example tree_example_rev \<and>
   tree_string_of tree_example = tree_string_of tree_example_rev"
  by (rule permutation_invariance [OF _ build_example build_example_rev]) simp

end
